theory Spec2Isabelle
  imports Complex_Main "HOL-Library.Word" "HOL-Library.Multiset"
begin

section \<open>The candidate set of the vector index (ssdHelpers/set.go)\<close>

text \<open>
  The file \<^verbatim>\<open>adapters/repos/db/vector/ssdHelpers/set.go\<close> implements the bounded,
  distance-ordered working set of the graph search as an unbalanced binary search tree of
  heap nodes. The embedding below follows the Go text function by function.

  \<^item> A \<^verbatim>\<open>*Node\<close> is a value of type \<open>Node option\<close>; \<open>None\<close> is the nil pointer.
    Every node of a tree built by \<^verbatim>\<open>Add\<close> is referenced by exactly one pointer (its
    parent's field or \<^verbatim>\<open>Set.items\<close>), so an assignment through a pointer is the same as
    rebuilding the path from the root down to the assigned field.
  \<^item> Go's \<^verbatim>\<open>uint64\<close> and \<^verbatim>\<open>int\<close> are 64-bit words; \<^verbatim>\<open>int\<close> is read with \<open>sint\<close>.
  \<^item> Distances are \<^verbatim>\<open>float32\<close>. The code only compares them with \<^verbatim>\<open><\<close> and \<^verbatim>\<open>>\<close>;
    they are modelled as reals, that is, as the ordered values of \<^verbatim>\<open>float32\<close> without NaN.
  \<^item> A nil-pointer dereference, an index out of range and a negative length given to
    \<^verbatim>\<open>make\<close> are run-time panics; they are the \<open>Inl\<close> results of the model.
\<close>

subsection \<open>Data\<close>

type_synonym uint64 = "64 word"
type_synonym go_int = "64 word"
type_synonym float32 = real

datatype error = Error string

datatype panic = NilPointerDereference | IndexOutOfRange | NegativeLength

text \<open>
  The types \<^verbatim>\<open>VectorForID\<close> and \<^verbatim>\<open>DistanceFunction\<close> are declared in another file of the
  package. From their call sites in \<^verbatim>\<open>Set.Add\<close>: the first maps an id to a vector and an
  error value (nil on success), the second maps two vectors to a \<^verbatim>\<open>float32\<close>. The context
  argument is always \<^verbatim>\<open>context.Background()\<close> and is left out.
\<close>

type_synonym VectorForID = "uint64 \<Rightarrow> float32 list \<times> error option"
type_synonym DistanceFunction = "float32 list \<Rightarrow> float32 list \<Rightarrow> float32"

record IndexAndDistance =
  index :: uint64
  distance :: float32
  visited :: bool

datatype Node = Node (data: IndexAndDistance) (left: "Node option") (right: "Node option")

text \<open>
  The fields \<^verbatim>\<open>distance\<close> and \<^verbatim>\<open>size\<close> of \<^verbatim>\<open>Set\<close> are renamed \<open>distance_s\<close> and \<open>size_s\<close>:
  the first name is taken by the field of \<open>IndexAndDistance\<close>, the second by HOL. The
  struct \<^verbatim>\<open>Set\<close> itself is the record \<open>CandidateSet\<close>, and the local variable \<^verbatim>\<open>dist\<close> is
  written \<open>dist'\<close>, for the same reason.
\<close>

record CandidateSet =
  items :: "Node option"
  vectorForID :: VectorForID
  distance_s :: DistanceFunction
  center :: "float32 list"
  capacity :: go_int
  size_s :: go_int

subsection \<open>Operations\<close>

definition NewSet :: "go_int \<Rightarrow> VectorForID \<Rightarrow> DistanceFunction \<Rightarrow> float32 list \<Rightarrow> CandidateSet" where
  "NewSet cap vfi dfn c =
     \<lparr>items = None, vectorForID = vfi, distance_s = dfn, center = c,
      capacity = cap, size_s = 0\<rparr>"

text \<open>\<^verbatim>\<open>func (n *Node) Add(data IndexAndDistance)\<close>, called on non-nil nodes only.\<close>

fun Node_Add :: "Node \<Rightarrow> IndexAndDistance \<Rightarrow> Node" where
  "Node_Add (Node nd l r) d =
     (if index nd = index d then Node nd l r
      else if distance nd > distance d then
        (case l of
           None \<Rightarrow> Node nd (Some (Node d None None)) r
         | Some lnode \<Rightarrow> Node nd (Some (Node_Add lnode d)) r)
      else
        (case r of
           None \<Rightarrow> Node nd l (Some (Node d None None))
         | Some rnode \<Rightarrow> Node nd l (Some (Node_Add rnode d))))"

text \<open>\<^verbatim>\<open>func (n *Node) Last(parent *Node) (*Node, *Node)\<close>: the rightmost node and its parent.\<close>

fun Last :: "Node \<Rightarrow> Node option \<Rightarrow> Node \<times> Node option" where
  "Last (Node nd l r) parent =
     (case r of
        None \<Rightarrow> (Node nd l r, parent)
      | Some rnode \<Rightarrow> Last rnode (Some (Node nd l r)))"

text \<open>
  The tree after the assignment \<^verbatim>\<open>parent.right = last.left\<close> of \<^verbatim>\<open>RemoveLastIfBigger\<close>,
  where \<^verbatim>\<open>last\<close> and \<^verbatim>\<open>parent\<close> are the result of \<^verbatim>\<open>Last\<close>: the right spine is rebuilt and
  the rightmost node is replaced by its left child.
\<close>

fun unlink_last :: "Node \<Rightarrow> Node option" where
  "unlink_last (Node nd l r) =
     (case r of
        None \<Rightarrow> l
      | Some rnode \<Rightarrow> Some (Node nd l (unlink_last rnode)))"

text \<open>
  \<^verbatim>\<open>func (s *Set) RemoveLastIfBigger(dist float32) bool\<close>. With \<^verbatim>\<open>s.items == nil\<close> the call
  \<^verbatim>\<open>s.items.Last(nil)\<close> reads \<^verbatim>\<open>n.right\<close> of a nil node.
\<close>

definition RemoveLastIfBigger :: "CandidateSet \<Rightarrow> float32 \<Rightarrow> panic + (bool \<times> CandidateSet)" where
  "RemoveLastIfBigger s dist' =
     (case items s of
        None \<Rightarrow> Inl NilPointerDereference
      | Some n \<Rightarrow>
          (case Last n None of
             (lst, parent) \<Rightarrow>
               if distance (data lst) < dist' then Inr (False, s)
               else if parent = None then Inr (True, s\<lparr>items := left n\<rparr>)
               else Inr (True, s\<lparr>items := unlink_last n\<rparr>)))"

text \<open>Lines 47 to 65 of \<^verbatim>\<open>Set.Add\<close>: count the entry, build it and link it.\<close>

definition Add_entry :: "CandidateSet \<Rightarrow> uint64 \<Rightarrow> float32 \<Rightarrow> CandidateSet" where
  "Add_entry s x dist' =
     (let s1 = s\<lparr>size_s := size_s s + 1\<rparr>;
          d = \<lparr>index = x, distance = dist', visited = False\<rparr>
      in case items s1 of
           None \<Rightarrow> s1\<lparr>items := Some (Node d None None)\<rparr>
         | Some n \<Rightarrow> s1\<lparr>items := Some (Node_Add n d)\<rparr>)"

text \<open>
  \<^verbatim>\<open>func (s *Set) Add(x uint64) *Set\<close>. The error value of the fetch is bound to \<^verbatim>\<open>_\<close>;
  the function has no error result.
\<close>

definition Set_Add :: "CandidateSet \<Rightarrow> uint64 \<Rightarrow> panic + CandidateSet" where
  "Set_Add s x =
     (case vectorForID s x of
        (vec, _) \<Rightarrow>
          let dist' = distance_s s vec (center s) in
          if size_s s = capacity s then
            (case RemoveLastIfBigger s dist' of
               Inl e \<Rightarrow> Inl e
             | Inr (removed, s1) \<Rightarrow>
                 if \<not> removed then Inr s1
                 else Inr (Add_entry (s1\<lparr>size_s := size_s s1 - 1\<rparr>) x dist'))
          else Inr (Add_entry s x dist'))"

text \<open>\<^verbatim>\<open>func (s *Set) AddRange(indices []uint64) *Set\<close>; a panic ends the loop.\<close>

fun AddRange :: "CandidateSet \<Rightarrow> uint64 list \<Rightarrow> panic + CandidateSet" where
  "AddRange s [] = Inr s"
| "AddRange s (item # indices) =
     (case Set_Add s item of
        Inl e \<Rightarrow> Inl e
      | Inr s1 \<Rightarrow> AddRange s1 indices)"

definition Size :: "CandidateSet \<Rightarrow> int" where
  "Size s = sint (size_s s)"

text \<open>\<^verbatim>\<open>func (n *Node) NotVisited() bool\<close>, called on non-nil nodes only.\<close>

fun Node_NotVisited :: "Node \<Rightarrow> bool" where
  "Node_NotVisited (Node nd l r) =
     (if \<not> visited nd then True
      else ((case l of None \<Rightarrow> False | Some lnode \<Rightarrow> Node_NotVisited lnode) \<or>
            (case r of None \<Rightarrow> False | Some rnode \<Rightarrow> Node_NotVisited rnode)))"

text \<open>
  \<^verbatim>\<open>func (s *Set) NotVisited() bool\<close>. Go calls a pointer method on a nil receiver; the
  panic comes from \<^verbatim>\<open>n.data.visited\<close> in the method body.
\<close>

definition Set_NotVisited :: "CandidateSet \<Rightarrow> panic + bool" where
  "Set_NotVisited s =
     (case items s of
        None \<Rightarrow> Inl NilPointerDereference
      | Some n \<Rightarrow> Inr (Node_NotVisited n))"

text \<open>
  \<^verbatim>\<open>func (n *Node) Top() (uint64, bool)\<close>: the result is the returned pair and the node
  after the call, since \<^verbatim>\<open>Top\<close> sets the visited flag of the entry it returns.
\<close>

fun Node_Top :: "Node \<Rightarrow> (uint64 \<times> bool) \<times> Node" where
  "Node_Top (Node nd l r) =
     (case (case l of
              None \<Rightarrow> (None, l)
            | Some lnode \<Rightarrow>
                (case Node_Top lnode of
                   ((i, found), lnode') \<Rightarrow> (if found then Some i else None, Some lnode'))) of
        (Some i, l') \<Rightarrow> ((i, True), Node nd l' r)
      | (None, l') \<Rightarrow>
          if \<not> visited nd then ((index nd, True), Node (nd\<lparr>visited := True\<rparr>) l' r)
          else
            (case r of
               None \<Rightarrow> ((0, False), Node nd l' r)
             | Some rnode \<Rightarrow>
                 (case Node_Top rnode of
                    (res, rnode') \<Rightarrow> (res, Node nd l' (Some rnode')))))"

text \<open>
  \<^verbatim>\<open>func (s *Set) Top() uint64\<close>: the flag of \<^verbatim>\<open>Node.Top\<close> is bound to \<^verbatim>\<open>_\<close>. On a nil
  \<^verbatim>\<open>s.items\<close> the method body reads \<^verbatim>\<open>n.left\<close> of a nil node.
\<close>

definition Set_Top :: "CandidateSet \<Rightarrow> panic + (uint64 \<times> CandidateSet)" where
  "Set_Top s =
     (case items s of
        None \<Rightarrow> Inl NilPointerDereference
      | Some n \<Rightarrow>
          (case Node_Top n of
             ((x, _), n') \<Rightarrow> Inr (x, s\<lparr>items := Some n'\<rparr>)))"

text \<open>
  \<^verbatim>\<open>func (n *Node) Elements(buffer []uint64, offset int) int\<close>: the buffer is written in
  place, so the model returns it with the offset. A write at or beyond the length of the
  buffer panics. The offset starts at 0 and only grows, so it is a natural number.
\<close>

fun Node_Elements :: "Node \<Rightarrow> uint64 list \<Rightarrow> nat \<Rightarrow> panic + (uint64 list \<times> nat)" where
  "Node_Elements (Node nd l r) buffer offset =
     (case (case l of
              None \<Rightarrow> Inr (buffer, offset)
            | Some lnode \<Rightarrow> Node_Elements lnode buffer offset) of
        Inl e \<Rightarrow> Inl e
      | Inr (buffer1, offset1) \<Rightarrow>
          if offset1 < length buffer1 then
            (case r of
               None \<Rightarrow> Inr (buffer1[offset1 := index nd], offset1 + 1)
             | Some rnode \<Rightarrow> Node_Elements rnode (buffer1[offset1 := index nd]) (offset1 + 1))
          else Inl IndexOutOfRange)"

text \<open>
  \<^verbatim>\<open>func (s *Set) Elements() []uint64\<close>: \<^verbatim>\<open>make\<close> panics on a negative length, the call on
  a nil \<^verbatim>\<open>s.items\<close> reads \<^verbatim>\<open>n.left\<close> of a nil node.
\<close>

definition Elements :: "CandidateSet \<Rightarrow> panic + uint64 list" where
  "Elements s =
     (if sint (size_s s) < 0 then Inl NegativeLength
      else
        let res = replicate (nat (sint (size_s s))) (0 :: uint64) in
        case items s of
          None \<Rightarrow> Inl NilPointerDereference
        | Some n \<Rightarrow>
            (case Node_Elements n res 0 of
               Inl e \<Rightarrow> Inl e
             | Inr (buffer, i) \<Rightarrow> Inr (take i buffer)))"

subsection \<open>Stored entries, order and sequences of calls\<close>

text \<open>
  The entries of a tree from left to right (the order in which \<^verbatim>\<open>Node.Elements\<close> and
  \<^verbatim>\<open>Node.Top\<close> walk it), and the entries behind a pointer.
\<close>

fun entries :: "Node \<Rightarrow> IndexAndDistance list" where
  "entries (Node nd l r) =
     (case l of None \<Rightarrow> [] | Some lnode \<Rightarrow> entries lnode) @ nd #
     (case r of None \<Rightarrow> [] | Some rnode \<Rightarrow> entries rnode)"

definition stored :: "Node option \<Rightarrow> IndexAndDistance list" where
  "stored p = (case p of None \<Rightarrow> [] | Some n \<Rightarrow> entries n)"

text \<open>
  The search-tree order that \<^verbatim>\<open>Node.Add\<close> builds: an entry goes left when the node's
  distance is greater than its own, and right otherwise.
\<close>

fun ordered :: "Node \<Rightarrow> bool" where
  "ordered (Node nd l r) =
     ((case l of
         None \<Rightarrow> True
       | Some lnode \<Rightarrow> ordered lnode \<and> (\<forall>e\<in>set (entries lnode). distance e < distance nd)) \<and>
      (case r of
         None \<Rightarrow> True
       | Some rnode \<Rightarrow> ordered rnode \<and> (\<forall>e\<in>set (entries rnode). distance nd \<le> distance e)))"

text \<open>The distance that \<^verbatim>\<open>Set.Add\<close> computes for an id (lines 38 and 39).\<close>

definition fetched_distance :: "CandidateSet \<Rightarrow> uint64 \<Rightarrow> float32" where
  "fetched_distance s x = distance_s s (fst (vectorForID s x)) (center s)"

text \<open>
  A caller of the set makes a sequence of calls. \<open>run\<close> performs them in order and stops
  at the first panic. It collects the ids that \<^verbatim>\<open>Top\<close> returned while the set had an
  unvisited entry (\<^verbatim>\<open>NotVisited()\<close> was true before the call): these are the calls that
  return an entry and mark it.
\<close>

datatype call = Call_Add uint64 | Call_AddRange "uint64 list" | Call_Top

fun run :: "CandidateSet \<Rightarrow> call list \<Rightarrow> panic + (uint64 list \<times> CandidateSet)" where
  "run s [] = Inr ([], s)"
| "run s (Call_Add x # cs) =
     (case Set_Add s x of
        Inl e \<Rightarrow> Inl e
      | Inr s1 \<Rightarrow> run s1 cs)"
| "run s (Call_AddRange xs # cs) =
     (case AddRange s xs of
        Inl e \<Rightarrow> Inl e
      | Inr s1 \<Rightarrow> run s1 cs)"
| "run s (Call_Top # cs) =
     (case Set_NotVisited s of
        Inl e \<Rightarrow> Inl e
      | Inr unvisited \<Rightarrow>
          (case Set_Top s of
             Inl e \<Rightarrow> Inl e
           | Inr (x, s1) \<Rightarrow>
               (case run s1 cs of
                  Inl e \<Rightarrow> Inl e
                | Inr (outs, s2) \<Rightarrow> Inr ((if unvisited then [x] else []) @ outs, s2))))"

text \<open>
  \<open>evicts_on_tie s x\<close>: the call \<^verbatim>\<open>Add(x)\<close> on \<open>s\<close> takes the branch of line 41 and
  finds the distance of \<open>x\<close> equal to the distance of the last entry, which
  \<^verbatim>\<open>RemoveLastIfBigger\<close> then removes. \<open>run_evicts_on_tie s cs\<close>: some \<^verbatim>\<open>Add\<close> of the
  sequence \<open>cs\<close>, started in \<open>s\<close>, does so.
\<close>

definition evicts_on_tie :: "CandidateSet \<Rightarrow> uint64 \<Rightarrow> bool" where
  "evicts_on_tie s x =
     (size_s s = capacity s \<and>
      (case items s of
         None \<Rightarrow> False
       | Some n \<Rightarrow> distance (data (fst (Last n None))) = fetched_distance s x))"

fun range_evicts_on_tie :: "CandidateSet \<Rightarrow> uint64 list \<Rightarrow> bool" where
  "range_evicts_on_tie s [] = False"
| "range_evicts_on_tie s (x # xs) =
     (evicts_on_tie s x \<or>
      (case Set_Add s x of
         Inl e \<Rightarrow> False
       | Inr s1 \<Rightarrow> range_evicts_on_tie s1 xs))"

fun run_evicts_on_tie :: "CandidateSet \<Rightarrow> call list \<Rightarrow> bool" where
  "run_evicts_on_tie s [] = False"
| "run_evicts_on_tie s (Call_Add x # cs) =
     (evicts_on_tie s x \<or>
      (case Set_Add s x of
         Inl e \<Rightarrow> False
       | Inr s1 \<Rightarrow> run_evicts_on_tie s1 cs))"
| "run_evicts_on_tie s (Call_AddRange xs # cs) =
     (range_evicts_on_tie s xs \<or>
      (case AddRange s xs of
         Inl e \<Rightarrow> False
       | Inr s1 \<Rightarrow> run_evicts_on_tie s1 cs))"
| "run_evicts_on_tie s (Call_Top # cs) =
     (case Set_Top s of
        Inl e \<Rightarrow> False
      | Inr (x, s1) \<Rightarrow> run_evicts_on_tie s1 cs)"

text \<open>
  \<open>adds_stored s x\<close>: the id \<open>x\<close> is stored in \<open>s\<close> when \<^verbatim>\<open>Add(x)\<close> is called, so the call
  is a duplicate \<^verbatim>\<open>Add\<close>. \<open>run_adds_stored s cs\<close>: some \<^verbatim>\<open>Add\<close> of the sequence \<open>cs\<close>,
  started in \<open>s\<close>, is one.
\<close>

definition adds_stored :: "CandidateSet \<Rightarrow> uint64 \<Rightarrow> bool" where
  "adds_stored s x = (x \<in> index ` set (stored (items s)))"

fun range_adds_stored :: "CandidateSet \<Rightarrow> uint64 list \<Rightarrow> bool" where
  "range_adds_stored s [] = False"
| "range_adds_stored s (x # xs) =
     (adds_stored s x \<or>
      (case Set_Add s x of
         Inl e \<Rightarrow> False
       | Inr s1 \<Rightarrow> range_adds_stored s1 xs))"

fun run_adds_stored :: "CandidateSet \<Rightarrow> call list \<Rightarrow> bool" where
  "run_adds_stored s [] = False"
| "run_adds_stored s (Call_Add x # cs) =
     (adds_stored s x \<or>
      (case Set_Add s x of
         Inl e \<Rightarrow> False
       | Inr s1 \<Rightarrow> run_adds_stored s1 cs))"
| "run_adds_stored s (Call_AddRange xs # cs) =
     (range_adds_stored s xs \<or>
      (case AddRange s xs of
         Inl e \<Rightarrow> False
       | Inr s1 \<Rightarrow> run_adds_stored s1 cs))"
| "run_adds_stored s (Call_Top # cs) =
     (case Set_Top s of
        Inl e \<Rightarrow> False
      | Inr (x, s1) \<Rightarrow> run_adds_stored s1 cs)"

text \<open>
  What \<^verbatim>\<open>Node.Top\<close> does to the list of entries when it finds an unvisited one: the first
  unvisited entry of the list is marked.
\<close>

fun mark_first :: "IndexAndDistance list \<Rightarrow> IndexAndDistance list" where
  "mark_first [] = []"
| "mark_first (e # es) =
     (if \<not> visited e then e\<lparr>visited := True\<rparr> # es else e # mark_first es)"

text \<open>
  Two invariants of the sets that the calls build. The tree is ordered, every entry holds
  the distance that \<^verbatim>\<open>Add\<close> computes for its id, and no id is stored twice. The counter
  \<^verbatim>\<open>size\<close> stays between the number of stored entries and the capacity.
\<close>

definition ordered_opt :: "Node option \<Rightarrow> bool" where
  "ordered_opt p = (case p of None \<Rightarrow> True | Some n \<Rightarrow> ordered n)"

definition tree_inv :: "CandidateSet \<Rightarrow> bool" where
  "tree_inv s =
     (ordered_opt (items s) \<and>
      (\<forall>e\<in>set (stored (items s)). distance e = fetched_distance s (index e)) \<and>
      distinct (map index (stored (items s))))"

definition size_inv :: "CandidateSet \<Rightarrow> bool" where
  "size_inv s =
     (int (length (stored (items s))) \<le> sint (size_s s) \<and>
      sint (size_s s) \<le> sint (capacity s))"

text \<open>
  The ids that \<^verbatim>\<open>Top\<close> has returned so far, \<open>R\<close>, against the set: each of them is
  either stored and visited, or it is not stored, the set is full and no stored entry is
  farther away than the id.
\<close>

definition returned_inv :: "CandidateSet \<Rightarrow> uint64 set \<Rightarrow> bool" where
  "returned_inv s R =
     (\<forall>x\<in>R.
        (\<exists>e\<in>set (stored (items s)). index e = x \<and> visited e) \<or>
        (size_s s = capacity s \<and> x \<notin> index ` set (stored (items s)) \<and>
         (\<forall>e\<in>set (stored (items s)). distance e \<le> fetched_distance s x)))"

subsection \<open>Example collaborators\<close>

text \<open>
  Vector sources and a distance function for the concrete runs below: a source that
  returns the one-dimensional vector holding the id, a source that returns the same
  vector for every id, a source that always fails, and the distance that reads the first
  coordinate of the vector.
\<close>

definition id_vector :: VectorForID where
  "id_vector x = ([of_nat (unat x)], None)"

definition origin_vector :: VectorForID where
  "origin_vector x = ([0], None)"

definition failing_source :: VectorForID where
  "failing_source x = ([], Some (Error ''vector not found''))"

definition first_coordinate :: DistanceFunction where
  "first_coordinate v c = (case v of [] \<Rightarrow> 0 | a # _ \<Rightarrow> a)"

text \<open>A set with the distance function and the center of the examples.\<close>

definition example_set :: "VectorForID \<Rightarrow> go_int \<Rightarrow> go_int \<Rightarrow> Node option \<Rightarrow> CandidateSet" where
  "example_set vfi cap sz p =
     \<lparr>items = p, vectorForID = vfi, distance_s = first_coordinate, center = [],
      capacity = cap, size_s = sz\<rparr>"

section \<open>Properties\<close>

lemmas run_defs = NewSet_def Set_Add_def Add_entry_def RemoveLastIfBigger_def Set_Top_def
  Set_NotVisited_def id_vector_def origin_vector_def failing_source_def first_coordinate_def
  example_set_def Node_Top.simps

subsection \<open>Entries and order\<close>

lemma stored_simps [simp]: "stored None = []" "stored (Some n) = entries n"
  by (simp_all add: stored_def)

lemma ordered_opt_simps [simp]: "ordered_opt None" "ordered_opt (Some n) = ordered n"
  by (simp_all add: ordered_opt_def)

lemma entries_unfold [simp]: "entries (Node nd l r) = stored l @ nd # stored r"
  by (simp add: stored_def)

lemma ordered_unfold [simp]:
  "ordered (Node nd l r) =
     (ordered_opt l \<and> (\<forall>e\<in>set (stored l). distance e < distance nd) \<and>
      ordered_opt r \<and> (\<forall>e\<in>set (stored r). distance nd \<le> distance e))"
  by (auto simp: stored_def ordered_opt_def split: option.splits)

declare entries.simps [simp del] ordered.simps [simp del]

lemma entries_not_Nil [simp]: "entries t \<noteq> []"
  by (cases t) simp

lemma ordered_sorted: "ordered t \<Longrightarrow> sorted (map distance (entries t))"
proof (induction t rule: entries.induct)
  case (1 nd l r)
  have "sorted (map distance (stored l))"
    using "1.IH"(1) "1.prems" by (cases l) auto
  moreover have "sorted (map distance (stored r))"
    using "1.IH"(2) "1.prems" by (cases r) auto
  ultimately show ?case
    using "1.prems" by (fastforce simp: sorted_append)
qed

lemma ordered_last_farthest:
  assumes "ordered t" and "e \<in> set (entries t)"
  shows "distance e \<le> distance (last (entries t))"
proof -
  have "sorted (map distance (entries t))" using assms(1) by (rule ordered_sorted)
  moreover obtain i where "i < length (entries t)" and "entries t ! i = e"
    using assms(2) by (auto simp: in_set_conv_nth)
  ultimately have "map distance (entries t) ! i \<le> map distance (entries t) ! (length (entries t) - 1)"
    by (intro sorted_nth_mono) auto
  then show ?thesis
    using \<open>i < length (entries t)\<close> \<open>entries t ! i = e\<close> by (simp add: last_conv_nth)
qed

subsection \<open>Node.Add\<close>

lemma set_entries_Node_Add: "set (entries (Node_Add t d)) \<subseteq> insert d (set (entries t))"
  by (induction t d rule: Node_Add.induct) (auto split: option.splits)

lemma in_entries_Node_Add:
  "e \<in> set (entries (Node_Add t d)) \<Longrightarrow> e = d \<or> e \<in> set (entries t)"
  using set_entries_Node_Add [of t d] by auto

lemma set_entries_Node_Add_keeps: "set (entries t) \<subseteq> set (entries (Node_Add t d))"
  by (induction t d rule: Node_Add.induct) (auto split: option.splits)

lemma mset_entries_Node_Add:
  "index d \<notin> index ` set (entries t) \<Longrightarrow>
     mset (entries (Node_Add t d)) = add_mset d (mset (entries t))"
  by (induction t d rule: Node_Add.induct) (auto simp: image_Un split: option.splits)

lemma ordered_Node_Add: "ordered t \<Longrightarrow> ordered (Node_Add t d)"
proof (induction t d rule: Node_Add.induct)
  case (1 nd l r d)
  show ?case
  proof (cases "index nd = index d")
    case True
    with "1.prems" show ?thesis by simp
  next
    case ne: False
    show ?thesis
    proof (cases "distance nd > distance d")
      case True
      then show ?thesis
        using ne "1.prems" "1.IH"(1)
        by (cases l) (auto dest!: in_entries_Node_Add)
    next
      case False
      then show ?thesis
        using ne "1.prems" "1.IH"(2)
        by (cases r) (auto dest!: in_entries_Node_Add)
    qed
  qed
qed

lemma Node_Add_stored_id:
  "ordered t \<Longrightarrow> e \<in> set (entries t) \<Longrightarrow> index e = index d \<Longrightarrow> distance e = distance d \<Longrightarrow>
     Node_Add t d = t"
proof (induction t d rule: Node_Add.induct)
  case (1 nd l r d)
  show ?case
  proof (cases "index nd = index d")
    case True
    then show ?thesis by simp
  next
    case ne: False
    with "1.prems" have "e \<noteq> nd" by auto
    show ?thesis
    proof (cases "distance nd > distance d")
      case True
      with "1.prems" \<open>e \<noteq> nd\<close> obtain lnode where l: "l = Some lnode" and "e \<in> set (entries lnode)"
        by (cases l; cases r) auto
      then show ?thesis using ne True "1.prems" "1.IH"(1) by auto
    next
      case False
      with "1.prems" \<open>e \<noteq> nd\<close> obtain rnode where r: "r = Some rnode" and "e \<in> set (entries rnode)"
        by (cases l; cases r) auto
      then show ?thesis using ne False "1.prems" "1.IH"(2) by auto
    qed
  qed
qed

subsection \<open>Last and the removal of the last node\<close>

lemma Last_data: "data (fst (Last t p)) = last (entries t)"
  by (induction t p rule: Last.induct) (auto split: option.splits)

lemma Last_parent: "snd (Last t p) = None \<longleftrightarrow> p = None \<and> right t = None"
  by (induction t p rule: Last.induct) (auto split: option.splits)

lemma stored_unlink_last: "stored (unlink_last t) = butlast (entries t)"
  by (induction t rule: unlink_last.induct) (auto simp: butlast_append split: option.splits)

lemma unlink_last_root: "right t = None \<Longrightarrow> unlink_last t = left t"
  by (cases t) simp

lemma ordered_unlink_last: "ordered t \<Longrightarrow> ordered_opt (unlink_last t)"
proof (induction t rule: unlink_last.induct)
  case (1 nd l r)
  show ?case
  proof (cases r)
    case None
    with "1.prems" show ?thesis by simp
  next
    case (Some rnode)
    have "set (stored (unlink_last rnode)) \<subseteq> set (entries rnode)"
      by (simp add: stored_unlink_last in_set_butlastD subsetI)
    with Some "1.prems" "1.IH" show ?thesis
      by auto
  qed
qed

subsection \<open>Node.NotVisited and Node.Top\<close>

lemma Node_Top_exhausted: "\<not> Node_NotVisited t \<Longrightarrow> Node_Top t = ((0, False), t)"
  by (induction t rule: entries.induct) (auto split: option.splits if_splits)

lemma Node_NotVisited_iff: "Node_NotVisited t \<longleftrightarrow> (\<exists>e\<in>set (entries t). \<not> visited e)"
  by (induction t rule: entries.induct) (auto split: option.splits)

lemma Node_Top_found: "snd (fst (Node_Top t)) = Node_NotVisited t"
  by (induction t rule: entries.induct) (simp add: case_prod_beta split: option.splits)

lemma Node_Top_left:
  "Node_NotVisited lnode \<Longrightarrow>
     Node_Top (Node nd (Some lnode) r) =
       (fst (Node_Top lnode), Node nd (Some (snd (Node_Top lnode))) r)"
  using Node_Top_found [of lnode] by (simp add: case_prod_beta prod_eq_iff)

lemma Node_Top_here:
  "(case l of None \<Rightarrow> True | Some lnode \<Rightarrow> \<not> Node_NotVisited lnode) \<Longrightarrow> \<not> visited nd \<Longrightarrow>
     Node_Top (Node nd l r) = ((index nd, True), Node (nd\<lparr>visited := True\<rparr>) l r)"
  by (cases l) (simp_all add: Node_Top_exhausted)

lemma Node_Top_right:
  "(case l of None \<Rightarrow> True | Some lnode \<Rightarrow> \<not> Node_NotVisited lnode) \<Longrightarrow> visited nd \<Longrightarrow>
     Node_Top (Node nd l (Some rnode)) =
       (fst (Node_Top rnode), Node nd l (Some (snd (Node_Top rnode))))"
  by (cases l) (simp_all add: Node_Top_exhausted case_prod_beta)

declare Node_Top.simps [simp del]

lemma mark_first_all_visited: "\<forall>e\<in>set es. visited e \<Longrightarrow> mark_first es = es"
  by (induction es) auto

lemma mark_first_append:
  "mark_first (xs @ ys) =
     (if \<exists>e\<in>set xs. \<not> visited e then mark_first xs @ ys else xs @ mark_first ys)"
  by (induction xs) auto

lemma find_unvisited_append:
  "find (\<lambda>e. \<not> visited e) (xs @ ys) =
     (if \<exists>e\<in>set xs. \<not> visited e then find (\<lambda>e. \<not> visited e) xs
      else find (\<lambda>e. \<not> visited e) ys)"
  by (induction xs) auto

lemma find_unvisited_None: "find (\<lambda>e. \<not> visited e) es = None \<longleftrightarrow> (\<forall>e\<in>set es. visited e)"
  by (induction es) auto

lemma map_distance_mark_first [simp]: "map distance (mark_first es) = map distance es"
  by (induction es) auto

lemma map_index_mark_first [simp]: "map index (mark_first es) = map index es"
  by (induction es) auto

lemma length_mark_first [simp]: "length (mark_first es) = length es"
  by (induction es) auto

lemma entries_Node_Top: "entries (snd (Node_Top t)) = mark_first (entries t)"
proof (induction t rule: entries.induct)
  case (1 nd l r)
  show ?case
  proof (cases "case l of None \<Rightarrow> True | Some lnode \<Rightarrow> \<not> Node_NotVisited lnode")
    case False
    then obtain lnode where l: "l = Some lnode" and nv: "Node_NotVisited lnode"
      by (cases l) auto
    from nv have "\<exists>e\<in>set (entries lnode). \<not> visited e" by (simp add: Node_NotVisited_iff)
    then show ?thesis
      using "1.IH"(1) [OF l] by (simp add: l Node_Top_left [OF nv] mark_first_append)
  next
    case ex: True
    then have allv: "\<forall>e\<in>set (stored l). visited e"
      by (cases l) (auto simp: Node_NotVisited_iff)
    show ?thesis
    proof (cases "visited nd")
      case False
      then show ?thesis
        using allv by (simp add: Node_Top_here [OF ex] mark_first_append)
    next
      case v: True
      show ?thesis
      proof (cases r)
        case None
        have "\<not> Node_NotVisited (Node nd l r)"
          using ex v None by (cases l) auto
        then show ?thesis
          by (simp add: Node_Top_exhausted mark_first_all_visited Node_NotVisited_iff)
      next
        case (Some rnode)
        show ?thesis
          using allv v "1.IH"(2) [OF Some]
          by (simp add: Some Node_Top_right [OF ex v] mark_first_append)
      qed
    qed
  qed
qed

lemma fst_Node_Top:
  "fst (Node_Top t) =
     (case find (\<lambda>e. \<not> visited e) (entries t) of
        None \<Rightarrow> (0, False)
      | Some e \<Rightarrow> (index e, True))"
proof (induction t rule: entries.induct)
  case (1 nd l r)
  show ?case
  proof (cases "case l of None \<Rightarrow> True | Some lnode \<Rightarrow> \<not> Node_NotVisited lnode")
    case False
    then obtain lnode where l: "l = Some lnode" and nv: "Node_NotVisited lnode"
      by (cases l) auto
    from nv have "\<exists>e\<in>set (entries lnode). \<not> visited e" by (simp add: Node_NotVisited_iff)
    then show ?thesis
      using "1.IH"(1) [OF l] by (simp add: l Node_Top_left [OF nv] find_unvisited_append)
  next
    case ex: True
    then have allv: "\<forall>e\<in>set (stored l). visited e"
      by (cases l) (auto simp: Node_NotVisited_iff)
    show ?thesis
    proof (cases "visited nd")
      case False
      then show ?thesis
        using allv by (simp add: Node_Top_here [OF ex] find_unvisited_append)
    next
      case v: True
      show ?thesis
      proof (cases r)
        case None
        have nv: "\<not> Node_NotVisited (Node nd l r)"
          using ex v None by (cases l) auto
        then have "find (\<lambda>e. \<not> visited e) (entries (Node nd l r)) = None"
          by (simp only: find_unvisited_None Node_NotVisited_iff) blast
        then show ?thesis
          using Node_Top_exhausted [OF nv] by simp
      next
        case (Some rnode)
        show ?thesis
          using allv v "1.IH"(2) [OF Some]
          by (simp add: Some Node_Top_right [OF ex v] find_unvisited_append)
      qed
    qed
  qed
qed

lemma ball_distance_mark_first:
  "(\<forall>e\<in>set (mark_first es). P (distance e)) \<longleftrightarrow> (\<forall>e\<in>set es. P (distance e))"
  by (induction es) auto

lemma ordered_Node_Top: "ordered t \<Longrightarrow> ordered (snd (Node_Top t))"
proof (induction t rule: entries.induct)
  case (1 nd l r)
  have L: "ordered (snd (Node_Top lnode)) \<and>
      (\<forall>e\<in>set (entries (snd (Node_Top lnode))). distance e < distance nd)"
    if "l = Some lnode" for lnode
    using "1.IH"(1) [OF that] "1.prems" that
    by (simp add: entries_Node_Top ball_distance_mark_first [of _ "\<lambda>x. x < distance nd"])
  have R: "ordered (snd (Node_Top rnode)) \<and>
      (\<forall>e\<in>set (entries (snd (Node_Top rnode))). distance nd \<le> distance e)"
    if "r = Some rnode" for rnode
    using "1.IH"(2) [OF that] "1.prems" that
    by (simp add: entries_Node_Top ball_distance_mark_first [of _ "\<lambda>x. distance nd \<le> x"])
  show ?case
  proof (cases "case l of None \<Rightarrow> True | Some lnode \<Rightarrow> \<not> Node_NotVisited lnode")
    case False
    then obtain lnode where l: "l = Some lnode" and nv: "Node_NotVisited lnode"
      by (cases l) auto
    show ?thesis
      using L [OF l] "1.prems" by (simp add: l Node_Top_left [OF nv])
  next
    case ex: True
    show ?thesis
    proof (cases "visited nd")
      case False
      then show ?thesis
        using "1.prems" by (simp add: Node_Top_here [OF ex])
    next
      case v: True
      show ?thesis
      proof (cases r)
        case None
        have nv: "\<not> Node_NotVisited (Node nd l r)"
          using ex v None by (cases l) auto
        show ?thesis
          using "1.prems" by (simp only: Node_Top_exhausted [OF nv] snd_conv)
      next
        case (Some rnode)
        show ?thesis
          using "1.prems" R [OF Some] by (simp add: Some Node_Top_right [OF ex v])
      qed
    qed
  qed
qed

subsection \<open>Node.Elements\<close>

lemma take_Suc_update: "i < length xs \<Longrightarrow> take (Suc i) (xs[i := x]) = take i xs @ [x]"
  by (simp add: take_Suc_conv_app_nth)

lemma Node_Elements_fills:
  "offset + length (entries t) \<le> length buffer \<Longrightarrow>
     \<exists>buffer'. Node_Elements t buffer offset = Inr (buffer', offset + length (entries t)) \<and>
       length buffer' = length buffer \<and>
       take (offset + length (entries t)) buffer' = take offset buffer @ map index (entries t)"
proof (induction t arbitrary: buffer offset rule: entries.induct)
  case (1 nd l r)
  let ?o1 = "offset + length (stored l)"
  from "1.prems" have len: "?o1 + 1 + length (stored r) \<le> length buffer" by simp
  obtain b1 where b1:
    "(case l of None \<Rightarrow> Inr (buffer, offset) | Some lnode \<Rightarrow> Node_Elements lnode buffer offset) =
       Inr (b1, ?o1)"
    "length b1 = length buffer" "take ?o1 b1 = take offset buffer @ map index (stored l)"
  proof (cases l)
    case None
    then show ?thesis using that by simp
  next
    case (Some lnode)
    have "offset + length (entries lnode) \<le> length buffer" using len Some by simp
    from "1.IH"(1) [OF Some this] Some show ?thesis using that by auto
  qed
  let ?b2 = "b1[?o1 := index nd]"
  have o1: "?o1 < length b1" using len b1(2) by simp
  have b2: "length ?b2 = length buffer"
    "take (?o1 + 1) ?b2 = take offset buffer @ map index (stored l) @ [index nd]"
    using b1 o1 by (simp_all add: take_Suc_update)
  obtain b3 where b3:
    "(case r of None \<Rightarrow> Inr (?b2, ?o1 + 1) | Some rnode \<Rightarrow> Node_Elements rnode ?b2 (?o1 + 1)) =
       Inr (b3, ?o1 + 1 + length (stored r))"
    "length b3 = length buffer"
    "take (?o1 + 1 + length (stored r)) b3 = take (?o1 + 1) ?b2 @ map index (stored r)"
  proof (cases r)
    case None
    then show ?thesis using that b2 by simp
  next
    case (Some rnode)
    have "?o1 + 1 + length (entries rnode) \<le> length ?b2" using len Some b1(2) by simp
    from "1.IH"(2) [OF Some this] Some b2(1) show ?thesis using that by auto
  qed
  have "Node_Elements (Node nd l r) buffer offset = Inr (b3, ?o1 + 1 + length (stored r))"
    using b1(1) b3(1) o1 by (simp split: option.splits)
  then show ?case
    using b3(2,3) b2(2) by (simp add: add.assoc)
qed

subsection \<open>Set.Add, case by case\<close>

lemma fetched_distance_update [simp]:
  "fetched_distance (s\<lparr>items := p\<rparr>) = fetched_distance s"
  "fetched_distance (s\<lparr>size_s := k\<rparr>) = fetched_distance s"
  by (simp_all add: fetched_distance_def fun_eq_iff)

lemma Set_Add_not_full:
  "size_s s \<noteq> capacity s \<Longrightarrow> Set_Add s x = Inr (Add_entry s x (fetched_distance s x))"
  by (simp add: Set_Add_def fetched_distance_def split: prod.splits)

lemma Set_Add_full_nil:
  "size_s s = capacity s \<Longrightarrow> items s = None \<Longrightarrow> Set_Add s x = Inl NilPointerDereference"
  by (simp add: Set_Add_def RemoveLastIfBigger_def split: prod.splits)

lemma Set_Add_full_farther:
  "size_s s = capacity s \<Longrightarrow> items s = Some t \<Longrightarrow>
     distance (last (entries t)) < fetched_distance s x \<Longrightarrow> Set_Add s x = Inr s"
  using Last_data [of t None]
  by (simp add: Set_Add_def RemoveLastIfBigger_def fetched_distance_def case_prod_beta)

lemma Set_Add_full_evicts:
  assumes "size_s s = capacity s" and "items s = Some t"
    and "\<not> distance (last (entries t)) < fetched_distance s x"
  shows "Set_Add s x =
     Inr (Add_entry (s\<lparr>items := unlink_last t, size_s := size_s s - 1\<rparr>) x (fetched_distance s x))"
proof (cases "snd (Last t None) = None")
  case True
  then have "unlink_last t = left t" by (simp add: Last_parent unlink_last_root)
  with True assms Last_data [of t None] show ?thesis
    by (simp add: Set_Add_def RemoveLastIfBigger_def fetched_distance_def case_prod_beta)
next
  case False
  then have "snd (Last t None) \<noteq> None" by simp
  with assms Last_data [of t None] show ?thesis
    by (simp add: Set_Add_def RemoveLastIfBigger_def fetched_distance_def case_prod_beta
        del: not_None_eq)
qed

lemma Add_entry_fields [simp]:
  "vectorForID (Add_entry s x d) = vectorForID s"
  "distance_s (Add_entry s x d) = distance_s s"
  "center (Add_entry s x d) = center s"
  "capacity (Add_entry s x d) = capacity s"
  "size_s (Add_entry s x d) = size_s s + 1"
  by (simp_all add: Add_entry_def Let_def split: option.splits)

lemma items_Add_entry:
  "items (Add_entry s x d) =
     Some (case items s of
             None \<Rightarrow> Node \<lparr>index = x, distance = d, visited = False\<rparr> None None
           | Some n \<Rightarrow> Node_Add n \<lparr>index = x, distance = d, visited = False\<rparr>)"
  by (simp add: Add_entry_def Let_def split: option.splits)

lemma fetched_distance_Add_entry [simp]:
  "fetched_distance (Add_entry s x d) = fetched_distance s"
  by (simp add: fetched_distance_def fun_eq_iff)

subsection \<open>Invariants of the sets built by the calls\<close>

lemma AddRange_invariant:
  assumes step: "\<And>s x s'. P s \<Longrightarrow> Set_Add s x = Inr s' \<Longrightarrow> P s'"
    and "P s" and "AddRange s xs = Inr s'"
  shows "P s'"
  using assms(2,3)
proof (induction xs arbitrary: s)
  case Nil
  then show ?case by simp
next
  case (Cons x xs)
  then show ?case by (auto split: sum.splits dest: step)
qed

lemma run_invariant:
  assumes add: "\<And>s x s'. P s \<Longrightarrow> Set_Add s x = Inr s' \<Longrightarrow> P s'"
    and top: "\<And>s x s'. P s \<Longrightarrow> Set_Top s = Inr (x, s') \<Longrightarrow> P s'"
    and "P s" and "run s cs = Inr (outs, s')"
  shows "P s'"
  using assms(3,4)
proof (induction s cs arbitrary: outs rule: run.induct)
  case (1 s)
  then show ?case by simp
next
  case (2 s x cs)
  then show ?case by (auto split: sum.splits dest: add)
next
  case (3 s xs cs)
  from "3.prems"(2) obtain s1 where s1: "AddRange s xs = Inr s1" "run s1 cs = Inr (outs, s')"
    by (auto split: sum.splits)
  have "P s1" using add "3.prems"(1) s1(1) by (rule AddRange_invariant)
  then show ?case using "3.IH" s1 by simp
next
  case (4 s cs)
  then show ?case by (auto split: sum.splits prod.splits dest: top)
qed

lemma Set_Top_fields:
  assumes "Set_Top s = Inr (x, s')"
  shows "vectorForID s' = vectorForID s" "distance_s s' = distance_s s" "center s' = center s"
    "capacity s' = capacity s" "size_s s' = size_s s"
    "\<exists>t. items s = Some t \<and> items s' = Some (snd (Node_Top t)) \<and> x = fst (fst (Node_Top t))"
  using assms by (auto simp: Set_Top_def case_prod_beta split: option.splits)

lemma Set_Add_fields:
  assumes "Set_Add s x = Inr s'"
  shows "vectorForID s' = vectorForID s" "distance_s s' = distance_s s" "center s' = center s"
    "capacity s' = capacity s"
  using assms
  by (auto simp: Set_Add_def RemoveLastIfBigger_def case_prod_beta Let_def
      split: option.splits if_splits)

lemma fetched_distance_cong:
  "vectorForID s' = vectorForID s \<Longrightarrow> distance_s s' = distance_s s \<Longrightarrow> center s' = center s \<Longrightarrow>
     fetched_distance s' = fetched_distance s"
  by (simp add: fetched_distance_def fun_eq_iff)

lemma tree_inv_NewSet: "tree_inv (NewSet cap vfi dfn c)"
  by (simp add: tree_inv_def NewSet_def)

lemma tree_inv_Add_entry:
  assumes "tree_inv s"
  shows "tree_inv (Add_entry s x (fetched_distance s x))"
proof (cases "items s")
  case None
  then show ?thesis
    by (simp add: tree_inv_def items_Add_entry)
next
  case (Some t)
  let ?d = "\<lparr>index = x, distance = fetched_distance s x, visited = False\<rparr>"
  from assms Some have inv: "ordered t" "\<forall>e\<in>set (entries t). distance e = fetched_distance s (index e)"
    "distinct (map index (entries t))"
    by (simp_all add: tree_inv_def)
  show ?thesis
  proof (cases "x \<in> index ` set (entries t)")
    case True
    then obtain e where "e \<in> set (entries t)" "index e = x" by auto
    with inv have "Node_Add t ?d = t"
      by (intro Node_Add_stored_id [of t e]) auto
    with inv Some show ?thesis
      by (simp add: tree_inv_def items_Add_entry)
  next
    case False
    then have m: "mset (entries (Node_Add t ?d)) = add_mset ?d (mset (entries t))"
      by (intro mset_entries_Node_Add) simp
    have "image_mset index (mset (entries (Node_Add t ?d))) =
        image_mset index (add_mset ?d (mset (entries t)))"
      by (simp only: m)
    then have "mset (map index (entries (Node_Add t ?d))) = mset (map index (?d # entries t))"
      by simp
    then have "distinct (map index (entries (Node_Add t ?d))) = distinct (map index (?d # entries t))"
      by (rule mset_eq_imp_distinct_iff)
    moreover have "\<forall>e\<in>set (entries (Node_Add t ?d)). distance e = fetched_distance s (index e)"
      using inv(2) by (auto dest!: in_entries_Node_Add)
    ultimately show ?thesis
      using inv False Some ordered_Node_Add [of t ?d]
      by (simp add: tree_inv_def items_Add_entry)
  qed
qed

lemma tree_inv_unlink_last:
  assumes "tree_inv s" and "items s = Some t"
  shows "tree_inv (s\<lparr>items := unlink_last t, size_s := k\<rparr>)"
proof -
  have "distinct (butlast (map index (entries t)))"
    using assms by (intro distinct_butlast) (simp add: tree_inv_def)
  then show ?thesis
    using assms ordered_unlink_last [of t]
    by (auto simp: tree_inv_def stored_unlink_last map_butlast dest: in_set_butlastD)
qed

lemma tree_inv_Set_Add:
  assumes "tree_inv s" and "Set_Add s x = Inr s'"
  shows "tree_inv s'"
proof (cases "size_s s = capacity s")
  case False
  with assms tree_inv_Add_entry [of s x] show ?thesis
    by (simp add: Set_Add_not_full)
next
  case full: True
  show ?thesis
  proof (cases "items s")
    case None
    with full assms show ?thesis by (simp add: Set_Add_full_nil)
  next
    case (Some t)
    show ?thesis
    proof (cases "distance (last (entries t)) < fetched_distance s x")
      case True
      with full Some assms show ?thesis by (simp add: Set_Add_full_farther)
    next
      case False
      let ?s1 = "s\<lparr>items := unlink_last t, size_s := size_s s - 1\<rparr>"
      have "tree_inv ?s1" using assms(1) Some by (rule tree_inv_unlink_last)
      from tree_inv_Add_entry [OF this, of x] full Some False assms show ?thesis
        by (simp add: Set_Add_full_evicts)
    qed
  qed
qed

lemma ball_mark_first:
  "(\<forall>e\<in>set (mark_first es). P (index e) (distance e)) \<longleftrightarrow>
   (\<forall>e\<in>set es. P (index e) (distance e))"
  by (induction es) auto

lemma tree_inv_Set_Top:
  assumes "tree_inv s" and "Set_Top s = Inr (x, s')"
  shows "tree_inv s'"
proof -
  from Set_Top_fields(6) [OF assms(2)] obtain t where
    t: "items s = Some t" "items s' = Some (snd (Node_Top t))" by auto
  have fd: "fetched_distance s' = fetched_distance s"
    using Set_Top_fields(1-3) [OF assms(2)] by (rule fetched_distance_cong)
  show ?thesis
    using assms(1) t ordered_Node_Top [of t]
      ball_mark_first [of "entries t" "\<lambda>i d. d = fetched_distance s i"]
    by (simp add: tree_inv_def fd entries_Node_Top)
qed

lemma tree_inv_run:
  "run (NewSet cap vfi dfn c) cs = Inr (outs, s) \<Longrightarrow> tree_inv s"
  using run_invariant [of tree_inv "NewSet cap vfi dfn c" cs outs s]
    tree_inv_Set_Add tree_inv_Set_Top tree_inv_NewSet by blast

lemma sint_succ:
  assumes "sint (a :: 64 word) < sint (c :: 64 word)"
  shows "sint (a + 1) = sint a + 1"
proof -
  have ub: "sint c < 2 ^ 63" using sint_lt [of c] by simp
  have lb: "- (2 ^ 63) \<le> sint a" using sint_ge [of a] by simp
  have "sint (a + 1) = signed_take_bit 63 (sint a + 1)"
    by (simp add: sint_word_ariths)
  also have "\<dots> = sint a + 1"
    using assms ub lb by (simp add: signed_take_bit_int_eq_self)
  finally show ?thesis .
qed

lemma sint_less_if_le_neq:
  assumes "sint (a :: 64 word) \<le> sint (c :: 64 word)" and "a \<noteq> c"
  shows "sint a < sint c"
proof -
  have "sint a \<noteq> sint c" using assms(2) signed_word_eqI [of a c] by auto
  with assms(1) show ?thesis by simp
qed

lemma length_entries_Node_Add: "length (entries (Node_Add t d)) \<le> Suc (length (entries t))"
  by (induction t d rule: Node_Add.induct) (auto split: option.splits)

lemma length_stored_Add_entry:
  "length (stored (items (Add_entry s x d))) \<le> Suc (length (stored (items s)))"
  using length_entries_Node_Add by (cases "items s") (simp_all add: items_Add_entry)

lemma size_inv_NewSet: "0 \<le> sint cap \<Longrightarrow> size_inv (NewSet cap vfi dfn c)"
  by (simp add: size_inv_def NewSet_def)

lemma size_inv_Set_Add:
  assumes "size_inv s" and "Set_Add s x = Inr s'"
  shows "size_inv s'"
proof (cases "size_s s = capacity s")
  case False
  with assms(1) have lt: "sint (size_s s) < sint (capacity s)"
    by (intro sint_less_if_le_neq) (simp_all add: size_inv_def)
  from False assms(2) have s': "s' = Add_entry s x (fetched_distance s x)"
    by (simp add: Set_Add_not_full)
  show ?thesis
    using assms(1) lt sint_succ [OF lt] length_stored_Add_entry [of s x "fetched_distance s x"]
    by (simp add: size_inv_def s')
next
  case full: True
  show ?thesis
  proof (cases "items s")
    case None
    with full assms show ?thesis by (simp add: Set_Add_full_nil)
  next
    case (Some t)
    show ?thesis
    proof (cases "distance (last (entries t)) < fetched_distance s x")
      case True
      with full Some assms show ?thesis by (simp add: Set_Add_full_farther)
    next
      case False
      let ?s1 = "s\<lparr>items := unlink_last t, size_s := size_s s - 1\<rparr>"
      from full Some False assms(2) have s': "s' = Add_entry ?s1 x (fetched_distance s x)"
        by (simp add: Set_Add_full_evicts)
      have "length (stored (items s')) \<le> Suc (length (stored (items ?s1)))"
        unfolding s' by (rule length_stored_Add_entry)
      also have "\<dots> = length (entries t)"
        by (simp add: stored_unlink_last)
      finally show ?thesis
        using assms(1) Some by (simp add: size_inv_def s')
    qed
  qed
qed

lemma size_inv_Set_Top:
  assumes "size_inv s" and "Set_Top s = Inr (x, s')"
  shows "size_inv s'"
  using assms(1) Set_Top_fields(4,5,6) [OF assms(2)]
  by (auto simp: size_inv_def entries_Node_Top)

lemma size_inv_run:
  assumes "0 \<le> sint cap" and "run (NewSet cap vfi dfn c) cs = Inr (outs, s)"
  shows "size_inv s \<and> capacity s = cap"
proof -
  have "size_inv (NewSet cap vfi dfn c) \<and> capacity (NewSet cap vfi dfn c) = cap"
    using assms(1) by (simp add: size_inv_NewSet) (simp add: NewSet_def)
  moreover have "size_inv s' \<and> capacity s' = cap"
    if "size_inv s \<and> capacity s = cap" and "Set_Add s x = Inr s'" for s x s'
    using that size_inv_Set_Add [of s x s'] Set_Add_fields(4) [of s x s'] by simp
  moreover have "size_inv s' \<and> capacity s' = cap"
    if "size_inv s \<and> capacity s = cap" and "Set_Top s = Inr (x, s')" for s x s'
    using that size_inv_Set_Top [of s x s'] Set_Top_fields(4) [of s x s'] by simp
  ultimately show ?thesis
    using assms(2)
      run_invariant [of "\<lambda>s. size_inv s \<and> capacity s = cap" "NewSet cap vfi dfn c" cs outs s]
    by blast
qed

lemma find_unvisited_nearest:
  assumes "sorted (map distance es)" and "find (\<lambda>e. \<not> visited e) es = Some e"
    and "u \<in> set es" and "\<not> visited u"
  shows "distance e \<le> distance u"
proof -
  from assms(2) obtain i where i: "i < length es" "es ! i = e" "\<forall>j<i. visited (es ! j)"
    by (auto simp: find_Some_iff)
  from assms(3) obtain k where k: "k < length es" "es ! k = u"
    by (auto simp: in_set_conv_nth)
  have "i \<le> k" using i(3) k(2) assms(4) by (meson not_le)
  then have "map distance es ! i \<le> map distance es ! k"
    using assms(1) k(1) by (intro sorted_nth_mono) auto
  then show ?thesis using i k by simp
qed

lemma find_unvisited_Some:
  "find (\<lambda>e. \<not> visited e) es = Some e \<Longrightarrow> e \<in> set es \<and> \<not> visited e"
  by (auto simp: find_Some_iff)

lemma mset_butlast: "xs \<noteq> [] \<Longrightarrow> mset (butlast xs) = mset xs - {#last xs#}"
  by (induction xs) auto

subsection \<open>Ids returned by Top\<close>

lemma set_stored_Add_entry:
  "set (stored (items s)) \<subseteq> set (stored (items (Add_entry s x d)))"
  "set (stored (items (Add_entry s x d))) \<subseteq>
     insert \<lparr>index = x, distance = d, visited = False\<rparr> (set (stored (items s)))"
  using set_entries_Node_Add_keeps set_entries_Node_Add
  by (cases "items s"; simp add: items_Add_entry)+

lemma in_butlast_or_last: "e \<in> set es \<Longrightarrow> e \<in> set (butlast es) \<or> e = last es"
  by (induction es) (auto split: if_splits)

lemma distinct_index_last:
  "distinct (map index es) \<Longrightarrow> e \<in> set (butlast es) \<Longrightarrow> index e \<noteq> index (last es)"
  by (induction es) (auto split: if_splits dest: in_set_butlastD)

lemma returned_inv_Set_Add:
  assumes tree: "tree_inv s" and ret: "returned_inv s R"
    and tie: "\<not> evicts_on_tie s x" and add: "Set_Add s x = Inr s'"
  shows "returned_inv s' R"
proof (cases "size_s s = capacity s")
  case False
  then have s': "s' = Add_entry s x (fetched_distance s x)"
    using add by (simp add: Set_Add_not_full)
  show ?thesis
    unfolding returned_inv_def
  proof
    fix y assume "y \<in> R"
    with ret False obtain e where "e \<in> set (stored (items s))" "index e = y" "visited e"
      by (auto simp: returned_inv_def)
    then show "(\<exists>e\<in>set (stored (items s')). index e = y \<and> visited e) \<or>
        (size_s s' = capacity s' \<and> y \<notin> index ` set (stored (items s')) \<and>
         (\<forall>e\<in>set (stored (items s')). distance e \<le> fetched_distance s' y))"
      using set_stored_Add_entry(1) [of s x "fetched_distance s x"] unfolding s' by blast
  qed
next
  case full: True
  show ?thesis
  proof (cases "items s")
    case None
    with full add show ?thesis by (simp add: Set_Add_full_nil)
  next
    case (Some t)
    let ?es = "entries t"
    let ?d = "fetched_distance s x"
    show ?thesis
    proof (cases "distance (last ?es) < ?d")
      case True
      with full Some add ret show ?thesis by (simp add: Set_Add_full_farther)
    next
      case False
      from tie full Some have "distance (last ?es) \<noteq> ?d"
        by (simp add: evicts_on_tie_def Last_data)
      with False have closer: "?d < distance (last ?es)" by simp
      let ?s1 = "s\<lparr>items := unlink_last t, size_s := size_s s - 1\<rparr>"
      from full Some False add have s': "s' = Add_entry ?s1 x ?d"
        by (simp add: Set_Add_full_evicts)
      have fd: "fetched_distance s' = fetched_distance s" by (simp add: s')
      have full': "size_s s' = capacity s'" using full by (simp add: s')
      have sub: "set (stored (items s')) \<subseteq>
          insert \<lparr>index = x, distance = ?d, visited = False\<rparr> (set (butlast ?es))"
        using set_stored_Add_entry(2) [of ?s1 x ?d] by (simp add: s' stored_unlink_last)
      have mem: "e' = \<lparr>index = x, distance = ?d, visited = False\<rparr> \<or>
          (e' \<in> set (butlast ?es) \<and> e' \<in> set ?es)"
        if "e' \<in> set (stored (items s'))" for e'
        using sub that by (auto dest: in_set_butlastD)
      have sup: "set (butlast ?es) \<subseteq> set (stored (items s'))"
        using set_stored_Add_entry(1) [of ?s1 x ?d] by (simp add: s' stored_unlink_last)
      from tree Some have ord: "ordered t" and dist: "distinct (map index ?es)"
        and cons: "\<forall>e\<in>set ?es. distance e = fetched_distance s (index e)"
        by (simp_all add: tree_inv_def)
      have far: "\<forall>e\<in>set ?es. distance e \<le> distance (last ?es)"
        using ord by (simp add: ordered_last_farthest)
      have last_in: "last ?es \<in> set ?es" by simp
      show ?thesis
        unfolding returned_inv_def
      proof
        fix y assume "y \<in> R"
        with ret Some consider
            (stored) e where "e \<in> set ?es" "index e = y" "visited e"
          | (gone) "y \<notin> index ` set ?es" "\<forall>e\<in>set ?es. distance e \<le> fetched_distance s y"
          by (auto simp: returned_inv_def)
        then show "(\<exists>e\<in>set (stored (items s')). index e = y \<and> visited e) \<or>
          (size_s s' = capacity s' \<and> y \<notin> index ` set (stored (items s')) \<and>
           (\<forall>e\<in>set (stored (items s')). distance e \<le> fetched_distance s' y))"
        proof cases
          case stored
          show ?thesis
          proof (cases "e \<in> set (butlast ?es)")
            case True
            with sup have "e \<in> set (stored (items s'))" by (rule subsetD)
            with stored(2,3) show ?thesis by (intro disjI1 bexI [of _ e]) simp_all
          next
            case False
            with stored(1) have e: "e = last ?es" using in_butlast_or_last [of e ?es] by simp
            have "distance (last ?es) = fetched_distance s (index (last ?es))"
              using cons last_in by (rule bspec)
            then have dy: "fetched_distance s y = distance (last ?es)"
              using stored(2) e by simp
            have "y \<noteq> x" using dy closer by force
            moreover have "\<forall>e'\<in>set (butlast ?es). index e' \<noteq> y"
              using distinct_index_last [OF dist] stored(2) e by auto
            ultimately have "y \<notin> index ` set (stored (items s'))"
              using mem by force
            moreover have "\<forall>e'\<in>set (stored (items s')). distance e' \<le> fetched_distance s' y"
            proof
              fix e' assume "e' \<in> set (stored (items s'))"
              from mem [OF this] show "distance e' \<le> fetched_distance s' y"
                using far closer by (auto simp: fd dy)
            qed
            ultimately show ?thesis using full' by (intro disjI2 conjI)
          qed
        next
          case gone
          have dl: "distance (last ?es) \<le> fetched_distance s y"
            using gone(2) last_in by (rule bspec)
          then have "y \<noteq> x" using closer by force
          then have "y \<notin> index ` set (stored (items s'))"
            using mem gone(1) by force
          moreover have "\<forall>e'\<in>set (stored (items s')). distance e' \<le> fetched_distance s' y"
          proof
            fix e' assume "e' \<in> set (stored (items s'))"
            have "?d \<le> fetched_distance s y" using closer dl by simp
            with mem [OF \<open>e' \<in> set (stored (items s'))\<close>]
            show "distance e' \<le> fetched_distance s' y"
              using gone(2) by (auto simp: fd)
          qed
          ultimately show ?thesis using full' by (intro disjI2 conjI)
        qed
      qed
    qed
  qed
qed

lemma visited_in_mark_first: "e \<in> set es \<Longrightarrow> visited e \<Longrightarrow> e \<in> set (mark_first es)"
  by (induction es) auto

lemma marked_in_mark_first:
  "find (\<lambda>e. \<not> visited e) es = Some e \<Longrightarrow> e\<lparr>visited := True\<rparr> \<in> set (mark_first es)"
  by (induction es) (auto split: if_splits)

lemma distinct_index_eq:
  "distinct (map index es) \<Longrightarrow> a \<in> set es \<Longrightarrow> b \<in> set es \<Longrightarrow> index a = index b \<Longrightarrow> a = b"
  by (meson distinct_map inj_onD)

lemma returned_inv_Set_Top:
  assumes tree: "tree_inv s" and ret: "returned_inv s R"
    and top: "Set_Top s = Inr (x, s')" and nv: "Set_NotVisited s = Inr u"
  shows "returned_inv s' (if u then insert x R else R) \<and> (u \<longrightarrow> x \<notin> R)"
proof -
  from Set_Top_fields(6) [OF top] obtain t where
    t: "items s = Some t" "items s' = Some (snd (Node_Top t))" "x = fst (fst (Node_Top t))"
    by auto
  let ?es = "entries t"
  from nv t(1) have u: "u = Node_NotVisited t" by (simp add: Set_NotVisited_def)
  have fd: "fetched_distance s' = fetched_distance s"
    using Set_Top_fields(1-3) [OF top] by (rule fetched_distance_cong)
  have sz: "size_s s' = size_s s" "capacity s' = capacity s"
    using Set_Top_fields(4,5) [OF top] by simp_all
  have es': "stored (items s') = mark_first ?es"
    using t(2) by (simp add: entries_Node_Top)
  have idx: "index ` set (mark_first ?es) = index ` set ?es"
    using map_index_mark_first [of ?es] by (metis set_map)
  have keep: "returned_inv s' R"
    unfolding returned_inv_def
  proof
    fix y assume "y \<in> R"
    with ret t(1) consider
        (stored) e where "e \<in> set ?es" "index e = y" "visited e"
      | (gone) "size_s s = capacity s" "y \<notin> index ` set ?es"
          "\<forall>e\<in>set ?es. distance e \<le> fetched_distance s y"
      by (auto simp: returned_inv_def)
    then show "(\<exists>e\<in>set (stored (items s')). index e = y \<and> visited e) \<or>
        (size_s s' = capacity s' \<and> y \<notin> index ` set (stored (items s')) \<and>
         (\<forall>e\<in>set (stored (items s')). distance e \<le> fetched_distance s' y))"
    proof cases
      case stored
      then have "e \<in> set (stored (items s'))"
        unfolding es' by (intro visited_in_mark_first)
      with stored(2,3) show ?thesis by (intro disjI1 bexI [of _ e]) simp_all
    next
      case gone
      have "\<forall>e\<in>set (mark_first ?es). distance e \<le> fetched_distance s y"
        using gone(3) ball_mark_first [of ?es "\<lambda>i d. d \<le> fetched_distance s y"] by simp
      then show ?thesis
        using gone(1,2) by (intro disjI2) (simp add: es' idx sz fd)
    qed
  qed
  show ?thesis
  proof (cases u)
    case False
    with keep show ?thesis by simp
  next
    case True
    then have "\<exists>e\<in>set ?es. \<not> visited e" using u by (simp add: Node_NotVisited_iff)
    then obtain e where e: "find (\<lambda>e. \<not> visited e) ?es = Some e"
      using find_unvisited_None [of ?es] by fastforce
    then have e_in: "e \<in> set ?es" and e_nv: "\<not> visited e"
      using find_unvisited_Some [OF e] by simp_all
    have x: "x = index e" using t(3) fst_Node_Top [of t] e by simp
    from tree t(1) have dist: "distinct (map index ?es)" by (simp add: tree_inv_def)
    have fresh: "x \<notin> R"
    proof
      assume "x \<in> R"
      with ret t(1) consider
          e0 where "e0 \<in> set ?es" "index e0 = x" "visited e0"
        | "x \<notin> index ` set ?es"
        by (auto simp: returned_inv_def)
      then show False
      proof cases
        case 1
        with dist e_in x have "e0 = e" by (intro distinct_index_eq [of ?es]) simp_all
        with 1(3) e_nv show False by simp
      next
        case 2
        with e_in x show False by simp
      qed
    qed
    have "\<exists>e'\<in>set (stored (items s')). index e' = x \<and> visited e'"
      using marked_in_mark_first [OF e] x
      by (intro bexI [of _ "e\<lparr>visited := True\<rparr>"]) (simp_all add: es')
    with keep have "returned_inv s' (insert x R)"
      by (simp add: returned_inv_def)
    with fresh True show ?thesis by simp
  qed
qed

lemma returned_inv_AddRange:
  assumes "tree_inv s" and "returned_inv s R"
    and "\<not> range_evicts_on_tie s xs" and "AddRange s xs = Inr s'"
  shows "tree_inv s' \<and> returned_inv s' R"
  using assms
proof (induction xs arbitrary: s)
  case Nil
  then show ?case by simp
next
  case (Cons x xs)
  from Cons.prems(4) obtain s1 where s1: "Set_Add s x = Inr s1" "AddRange s1 xs = Inr s'"
    by (auto split: sum.splits)
  from Cons.prems(3) s1(1) have tie: "\<not> evicts_on_tie s x" "\<not> range_evicts_on_tie s1 xs"
    by simp_all
  have "tree_inv s1" using Cons.prems(1) s1(1) by (rule tree_inv_Set_Add)
  moreover have "returned_inv s1 R"
    using Cons.prems(1,2) tie(1) s1(1) by (rule returned_inv_Set_Add)
  ultimately show ?case using tie(2) s1(2) by (rule Cons.IH)
qed

lemma run_returns_distinct:
  assumes "tree_inv s" and "returned_inv s R"
    and "\<not> run_evicts_on_tie s cs" and "run s cs = Inr (outs, s')"
  shows "distinct outs \<and> set outs \<inter> R = {} \<and> returned_inv s' (R \<union> set outs)"
  using assms
proof (induction s cs arbitrary: R outs rule: run.induct)
  case (1 s)
  then show ?case by simp
next
  case (2 s x cs)
  from "2.prems"(4) obtain s1 where s1: "Set_Add s x = Inr s1" "run s1 cs = Inr (outs, s')"
    by (auto split: sum.splits)
  from "2.prems"(3) s1(1) have tie: "\<not> evicts_on_tie s x" "\<not> run_evicts_on_tie s1 cs"
    by simp_all
  have "tree_inv s1" using "2.prems"(1) s1(1) by (rule tree_inv_Set_Add)
  moreover have "returned_inv s1 R"
    using "2.prems"(1,2) tie(1) s1(1) by (rule returned_inv_Set_Add)
  ultimately show ?case using tie(2) s1(2) by (rule "2.IH" [OF s1(1)])
next
  case (3 s xs cs)
  from "3.prems"(4) obtain s1 where s1: "AddRange s xs = Inr s1" "run s1 cs = Inr (outs, s')"
    by (auto split: sum.splits)
  from "3.prems"(3) s1(1) have tie: "\<not> range_evicts_on_tie s xs" "\<not> run_evicts_on_tie s1 cs"
    by simp_all
  have "tree_inv s1 \<and> returned_inv s1 R"
    using "3.prems"(1,2) tie(1) s1(1) by (rule returned_inv_AddRange)
  then show ?case using tie(2) s1(2) "3.IH" [OF s1(1)] by blast
next
  case (4 s cs)
  from "4.prems"(4) obtain u x s1 outs1 where
    st: "Set_NotVisited s = Inr u" "Set_Top s = Inr (x, s1)" "run s1 cs = Inr (outs1, s')"
      "outs = (if u then [x] else []) @ outs1"
    by (auto split: sum.splits prod.splits)
  from "4.prems"(3) st(2) have tie: "\<not> run_evicts_on_tie s1 cs" by simp
  have tree1: "tree_inv s1" using "4.prems"(1) st(2) by (rule tree_inv_Set_Top)
  have step: "returned_inv s1 (if u then insert x R else R)" "u \<longrightarrow> x \<notin> R"
    using returned_inv_Set_Top [OF "4.prems"(1,2) st(2,1)] by simp_all
  have ih: "distinct outs1 \<and> set outs1 \<inter> (if u then insert x R else R) = {} \<and>
      returned_inv s' ((if u then insert x R else R) \<union> set outs1)"
    using "4.IH" [OF st(1) st(2) refl tree1 step(1) tie st(3)] .
  show ?case
  proof (cases u)
    case True
    with ih step(2) st(4) show ?thesis by auto
  next
    case False
    with ih st(4) show ?thesis by simp
  qed
qed

subsection \<open>Concrete runs\<close>

lemma run_example_mixed:
  "run (NewSet 3 id_vector first_coordinate [])
       [Call_Add 5, Call_AddRange [3, 4], Call_Top, Call_Add 1] =
     Inr ([3], example_set id_vector 3 3
       (Some (Node \<lparr>index = 3, distance = 3, visited = True\<rparr>
         (Some (Node \<lparr>index = 1, distance = 1, visited = False\<rparr> None None))
         (Some (Node \<lparr>index = 4, distance = 4, visited = False\<rparr> None None)))))"
  by (simp add: run_defs)

lemma run_example_full:
  "run (NewSet 2 id_vector first_coordinate []) [Call_Add 5, Call_Add 7] =
     Inr ([], example_set id_vector 2 2
       (Some (Node \<lparr>index = 5, distance = 5, visited = False\<rparr> None
         (Some (Node \<lparr>index = 7, distance = 7, visited = False\<rparr> None None)))))"
  by (simp add: run_defs)

lemma run_example_left_visited:
  "run (NewSet 2 id_vector first_coordinate []) [Call_Add 7, Call_Add 5, Call_Top] =
     Inr ([5], example_set id_vector 2 2
       (Some (Node \<lparr>index = 7, distance = 7, visited = False\<rparr>
         (Some (Node \<lparr>index = 5, distance = 5, visited = True\<rparr> None None)) None)))"
  by (simp add: run_defs)

lemma run_example_exhausted:
  "run (NewSet 2 id_vector first_coordinate []) [Call_Add 5, Call_Top] =
     Inr ([5], example_set id_vector 2 1
       (Some (Node \<lparr>index = 5, distance = 5, visited = True\<rparr> None None)))"
  by (simp add: run_defs)

lemma run_example_three_tops:
  "run (NewSet 3 id_vector first_coordinate [])
     [Call_Add 5, Call_AddRange [3, 4], Call_Top, Call_Add 1, Call_Top, Call_Top] =
     Inr ([3, 1, 4], example_set id_vector 3 3
       (Some (Node \<lparr>index = 3, distance = 3, visited = True\<rparr>
         (Some (Node \<lparr>index = 1, distance = 1, visited = True\<rparr> None None))
         (Some (Node \<lparr>index = 4, distance = 4, visited = True\<rparr> None None)))))"
  by (simp add: run_defs)

lemma run_example_three_tops_no_tie:
  "\<not> run_evicts_on_tie (NewSet 3 id_vector first_coordinate [])
     [Call_Add 5, Call_AddRange [3, 4], Call_Top, Call_Add 1, Call_Top, Call_Top]"
  by (simp add: run_defs evicts_on_tie_def fetched_distance_def)

lemma run_example_three_tops_fresh:
  "\<not> run_adds_stored (NewSet 3 id_vector first_coordinate [])
     [Call_Add 5, Call_AddRange [3, 4], Call_Top, Call_Add 1, Call_Top, Call_Top]"
  by (simp add: run_defs adds_stored_def)

section \<open>The claims\<close>

subsection \<open>Add and the vector source\<close>

text \<open>
  C1. \<^verbatim>\<open>Add\<close> has no error result and binds the error of the fetch to \<^verbatim>\<open>_\<close>. When the
  fetch of \<open>x\<close> fails, \<^verbatim>\<open>Add(x)\<close> does what it does when the source returns the same
  vector without an error: the result is the one computed with the source corrected at
  \<open>x\<close>, up to the source stored in the set. No failure is propagated.
\<close>

theorem Add_ignores_fetch_error:
  assumes "snd (vectorForID s x) = Some err"
  shows "Set_Add s x =
    map_sum id (\<lambda>s'. s'\<lparr>vectorForID := vectorForID s\<rparr>)
      (Set_Add (s\<lparr>vectorForID := (vectorForID s)(x := (fst (vectorForID s x), None))\<rparr>) x)"
  by (simp add: Set_Add_def RemoveLastIfBigger_def Add_entry_def Let_def case_prod_beta
      split: option.splits)

theorem Add_ignores_fetch_error_witness:
  "snd (vectorForID (NewSet 2 failing_source first_coordinate []) 1) =
     Some (Error ''vector not found'') \<and>
   Set_Add (NewSet 2 failing_source first_coordinate []) 1 =
     map_sum id (\<lambda>s'. s'\<lparr>vectorForID := failing_source\<rparr>)
      (Set_Add (NewSet 2 (failing_source(1 := ([], None))) first_coordinate []) 1)"
  using Add_ignores_fetch_error [of "NewSet 2 failing_source first_coordinate []" 1
      "Error ''vector not found''"]
  by (simp add: NewSet_def failing_source_def)

text \<open>
  With a source that fails for every id, \<^verbatim>\<open>Add(1)\<close> on a new set returns normally and
  has stored the entry, with the distance of the empty vector that came with the error.
\<close>

theorem Add_continues_after_failed_fetch:
  "snd (failing_source 1) = Some (Error ''vector not found'') \<and>
   Set_Add (NewSet 2 failing_source first_coordinate []) 1 =
     Inr (example_set failing_source 2 1
       (Some (Node \<lparr>index = 1, distance = 0, visited = False\<rparr> None None)))"
  by (simp add: run_defs)

subsection \<open>Duplicate ids\<close>

text \<open>
  C2. A second \<^verbatim>\<open>Add\<close> of a stored id is not a no-op. \<^verbatim>\<open>Add\<close> counts the entry
  (\<^verbatim>\<open>s.size++\<close>) and, on a full set, removes the last entry before \<^verbatim>\<open>Node.Add\<close> finds
  the id in the tree and returns. In a set of capacity 3 that holds id 1, \<^verbatim>\<open>Add(1)\<close>
  leaves the entry and moves the size from 1 to 2. In a full set of capacity 2 that holds
  the ids 5 and 7, \<^verbatim>\<open>Add(5)\<close> removes the entry of id 7.
\<close>

theorem duplicate_Add_counted_twice:
  "run (NewSet 3 id_vector first_coordinate []) [Call_Add 1] =
     Inr ([], example_set id_vector 3 1
       (Some (Node \<lparr>index = 1, distance = 1, visited = False\<rparr> None None))) \<and>
   Set_Add (example_set id_vector 3 1
       (Some (Node \<lparr>index = 1, distance = 1, visited = False\<rparr> None None))) 1 =
     Inr (example_set id_vector 3 2
       (Some (Node \<lparr>index = 1, distance = 1, visited = False\<rparr> None None))) \<and>
   run (NewSet 2 id_vector first_coordinate []) [Call_Add 5, Call_Add 7] =
     Inr ([], example_set id_vector 2 2
       (Some (Node \<lparr>index = 5, distance = 5, visited = False\<rparr> None
         (Some (Node \<lparr>index = 7, distance = 7, visited = False\<rparr> None None))))) \<and>
   Set_Add (example_set id_vector 2 2
       (Some (Node \<lparr>index = 5, distance = 5, visited = False\<rparr> None
         (Some (Node \<lparr>index = 7, distance = 7, visited = False\<rparr> None None))))) 5 =
     Inr (example_set id_vector 2 2
       (Some (Node \<lparr>index = 5, distance = 5, visited = False\<rparr> None None)))"
  by (simp add: run_defs)

subsection \<open>Add on a full set\<close>




subsection \<open>Ids returned by Top\<close>




subsection \<open>Top\<close>

text \<open>
  C5. Let \<open>s\<close> be a set built by the calls, with the tree \<open>t\<close>. When an entry is unvisited,
  \<^verbatim>\<open>Top\<close> returns the id of the first unvisited entry in order, no unvisited entry is
  closer than it, and afterwards the entries are the same but for the flag of that one.
  When every entry is visited, \<^verbatim>\<open>Node.Top\<close> returns \<open>(0, False)\<close> and \<^verbatim>\<open>Set.Top\<close> returns
  the id 0 and leaves the set as it is: the flag does not reach the caller.
\<close>

theorem Top_returns_nearest_unvisited:
  assumes "run (NewSet cap vfi dfn c) cs = Inr (outs, s)" and "items s = Some t"
  shows "((\<exists>u\<in>set (entries t). \<not> visited u) \<longrightarrow>
      (\<exists>e t'. find (\<lambda>e. \<not> visited e) (entries t) = Some e \<and>
         e \<in> set (entries t) \<and> \<not> visited e \<and>
         (\<forall>u\<in>set (entries t). \<not> visited u \<longrightarrow> distance e \<le> distance u) \<and>
         Set_Top s = Inr (index e, s\<lparr>items := Some t'\<rparr>) \<and>
         entries t' = mark_first (entries t))) \<and>
    ((\<forall>u\<in>set (entries t). visited u) \<longrightarrow>
      Node_Top t = ((0, False), t) \<and> Set_Top s = Inr (0, s))"
proof (intro conjI impI)
  assume "\<exists>u\<in>set (entries t). \<not> visited u"
  then obtain e where e: "find (\<lambda>e. \<not> visited e) (entries t) = Some e"
    using find_unvisited_None [of "entries t"] by fastforce
  have sorted: "sorted (map distance (entries t))"
    using tree_inv_run [OF assms(1)] assms(2) by (simp add: tree_inv_def ordered_sorted)
  have top: "Set_Top s = Inr (index e, s\<lparr>items := Some (snd (Node_Top t))\<rparr>)"
    using assms(2) fst_Node_Top [of t] e by (simp add: Set_Top_def case_prod_beta)
  show "\<exists>e t'. find (\<lambda>e. \<not> visited e) (entries t) = Some e \<and>
         e \<in> set (entries t) \<and> \<not> visited e \<and>
         (\<forall>u\<in>set (entries t). \<not> visited u \<longrightarrow> distance e \<le> distance u) \<and>
         Set_Top s = Inr (index e, s\<lparr>items := Some t'\<rparr>) \<and>
         entries t' = mark_first (entries t)"
    using e find_unvisited_Some [OF e] find_unvisited_nearest [OF sorted e] top
    by (intro exI [of _ e] exI [of _ "snd (Node_Top t)"])
       (simp add: entries_Node_Top)
next
  assume "\<forall>u\<in>set (entries t). visited u"
  then have "\<not> Node_NotVisited t" by (simp add: Node_NotVisited_iff)
  then show "Node_Top t = ((0, False), t)" by (rule Node_Top_exhausted)
  then show "Set_Top s = Inr (0, s)" using assms(2) by (simp add: Set_Top_def)
qed

theorem Top_returns_nearest_unvisited_witness:
  "run (NewSet 2 id_vector first_coordinate []) [Call_Add 7, Call_Add 5, Call_Top] =
     Inr ([5], example_set id_vector 2 2
       (Some (Node \<lparr>index = 7, distance = 7, visited = False\<rparr>
         (Some (Node \<lparr>index = 5, distance = 5, visited = True\<rparr> None None)) None))) \<and>
   items (example_set id_vector 2 2
       (Some (Node \<lparr>index = 7, distance = 7, visited = False\<rparr>
         (Some (Node \<lparr>index = 5, distance = 5, visited = True\<rparr> None None)) None))) =
     Some (Node \<lparr>index = 7, distance = 7, visited = False\<rparr>
         (Some (Node \<lparr>index = 5, distance = 5, visited = True\<rparr> None None)) None) \<and>
   find (\<lambda>e. \<not> visited e)
     (entries (Node \<lparr>index = 7, distance = 7, visited = False\<rparr>
         (Some (Node \<lparr>index = 5, distance = 5, visited = True\<rparr> None None)) None)) =
     Some \<lparr>index = 7, distance = 7, visited = False\<rparr> \<and>
   Set_Top (example_set id_vector 2 2
       (Some (Node \<lparr>index = 7, distance = 7, visited = False\<rparr>
         (Some (Node \<lparr>index = 5, distance = 5, visited = True\<rparr> None None)) None))) =
     Inr (7, example_set id_vector 2 2
       (Some (Node \<lparr>index = 7, distance = 7, visited = True\<rparr>
         (Some (Node \<lparr>index = 5, distance = 5, visited = True\<rparr> None None)) None))) \<and>
   run (NewSet 2 id_vector first_coordinate []) [Call_Add 5, Call_Top] =
     Inr ([5], example_set id_vector 2 1
       (Some (Node \<lparr>index = 5, distance = 5, visited = True\<rparr> None None))) \<and>
   items (example_set id_vector 2 1
       (Some (Node \<lparr>index = 5, distance = 5, visited = True\<rparr> None None))) =
     Some (Node \<lparr>index = 5, distance = 5, visited = True\<rparr> None None) \<and>
   Node_Top (Node \<lparr>index = 5, distance = 5, visited = True\<rparr> None None) =
     ((0, False), Node \<lparr>index = 5, distance = 5, visited = True\<rparr> None None) \<and>
   Set_Top (example_set id_vector 2 1
       (Some (Node \<lparr>index = 5, distance = 5, visited = True\<rparr> None None))) =
     Inr (0, example_set id_vector 2 1
       (Some (Node \<lparr>index = 5, distance = 5, visited = True\<rparr> None None)))"
  using Top_returns_nearest_unvisited [OF run_example_left_visited, of
      "Node \<lparr>index = 7, distance = 7, visited = False\<rparr>
         (Some (Node \<lparr>index = 5, distance = 5, visited = True\<rparr> None None)) None"]
    Top_returns_nearest_unvisited [OF run_example_exhausted, of
      "Node \<lparr>index = 5, distance = 5, visited = True\<rparr> None None"] run_example_left_visited run_example_exhausted
  by (simp add: run_defs)

text \<open>
  The value that \<^verbatim>\<open>Set.Top\<close> returns on an exhausted set is no signal: it is the value it
  returns on a set whose nearest unvisited entry has the id 0.
\<close>

theorem Top_exhausted_looks_like_id_zero:
  "run (NewSet 2 id_vector first_coordinate []) [Call_Add 5, Call_Top] =
     Inr ([5], example_set id_vector 2 1
       (Some (Node \<lparr>index = 5, distance = 5, visited = True\<rparr> None None))) \<and>
   Set_Top (example_set id_vector 2 1
       (Some (Node \<lparr>index = 5, distance = 5, visited = True\<rparr> None None))) =
     Inr (0, example_set id_vector 2 1
       (Some (Node \<lparr>index = 5, distance = 5, visited = True\<rparr> None None))) \<and>
   run (NewSet 2 id_vector first_coordinate []) [Call_Add 0] =
     Inr ([], example_set id_vector 2 1
       (Some (Node \<lparr>index = 0, distance = 0, visited = False\<rparr> None None))) \<and>
   Set_Top (example_set id_vector 2 1
       (Some (Node \<lparr>index = 0, distance = 0, visited = False\<rparr> None None))) =
     Inr (0, example_set id_vector 2 1
       (Some (Node \<lparr>index = 0, distance = 0, visited = True\<rparr> None None)))"
  by (simp add: run_defs)

subsection \<open>Size\<close>

text \<open>
  C6. For a set created with a capacity \<open>cap\<close> that is not negative, after every sequence
  of calls of \<^verbatim>\<open>Add\<close>, \<^verbatim>\<open>AddRange\<close> and \<^verbatim>\<open>Top\<close> that returns, \<^verbatim>\<open>Size()\<close> is at most \<open>cap\<close>.
\<close>

theorem size_within_capacity:
  assumes "0 \<le> sint cap" and "run (NewSet cap vfi dfn c) cs = Inr (outs, s)"
  shows "Size s \<le> sint cap"
proof -
  from size_inv_run [OF assms] have "sint (size_s s) \<le> sint (capacity s)" and "capacity s = cap"
    by (auto simp: size_inv_def)
  then show ?thesis unfolding Size_def by (simp only:)
qed

theorem size_within_capacity_witness:
  "0 \<le> sint (3 :: go_int) \<and>
   run (NewSet 3 id_vector first_coordinate [])
       [Call_Add 5, Call_AddRange [3, 4], Call_Top, Call_Add 1] =
     Inr ([3], example_set id_vector 3 3
       (Some (Node \<lparr>index = 3, distance = 3, visited = True\<rparr>
         (Some (Node \<lparr>index = 1, distance = 1, visited = False\<rparr> None None))
         (Some (Node \<lparr>index = 4, distance = 4, visited = False\<rparr> None None))))) \<and>
   Size (example_set id_vector 3 3
       (Some (Node \<lparr>index = 3, distance = 3, visited = True\<rparr>
         (Some (Node \<lparr>index = 1, distance = 1, visited = False\<rparr> None None))
         (Some (Node \<lparr>index = 4, distance = 4, visited = False\<rparr> None None))))) \<le> sint (3 :: go_int)"
  using size_within_capacity [OF _ run_example_mixed] run_example_mixed by simp

text \<open>
  \<^verbatim>\<open>NewSet\<close> accepts a negative capacity, which the size never equals: one \<^verbatim>\<open>Add\<close> on a
  set of capacity -1 gives the size 1.
\<close>

theorem negative_capacity_exceeded:
  "sint (capacity (NewSet (- 1) id_vector first_coordinate [])) = - 1 \<and>
   run (NewSet (- 1) id_vector first_coordinate []) [Call_Add 1] =
     Inr ([], example_set id_vector (- 1) 1
       (Some (Node \<lparr>index = 1, distance = 1, visited = False\<rparr> None None))) \<and>
   Size (example_set id_vector (- 1) 1
       (Some (Node \<lparr>index = 1, distance = 1, visited = False\<rparr> None None))) = 1"
  by (simp add: run_defs Size_def)

subsection \<open>Elements\<close>

text \<open>
  C7. For a set of a capacity that is not negative, built by the calls and with the tree
  \<open>t\<close>, \<^verbatim>\<open>Elements()\<close> returns the ids of the stored entries in order, the distances of
  these entries ascend, and the list is as long as the number of stored entries.
\<close>

theorem Elements_in_order:
  assumes "0 \<le> sint cap" and "run (NewSet cap vfi dfn c) cs = Inr (outs, s)"
    and "items s = Some t"
  shows "Elements s = Inr (map index (entries t)) \<and>
    sorted (map distance (entries t)) \<and>
    length (map index (entries t)) = length (stored (items s))"
proof -
  from size_inv_run [OF assms(1,2)] assms(3)
  have len: "int (length (entries t)) \<le> sint (size_s s)"
    by (simp add: size_inv_def)
  then have nonneg: "\<not> sint (size_s s) < 0" by simp
  let ?res = "replicate (nat (sint (size_s s))) (0 :: uint64)"
  have "0 + length (entries t) \<le> length ?res" using len by simp
  from Node_Elements_fills [OF this] obtain buffer' where
    b: "Node_Elements t ?res 0 = Inr (buffer', length (entries t))"
      "take (length (entries t)) buffer' = map index (entries t)"
    by auto
  have "Elements s = Inr (map index (entries t))"
    using nonneg assms(3) b by (simp add: Elements_def)
  moreover have "sorted (map distance (entries t))"
    using tree_inv_run [OF assms(2)] assms(3) by (simp add: tree_inv_def ordered_sorted)
  ultimately show ?thesis using assms(3) by simp
qed

theorem Elements_in_order_witness:
  "0 \<le> sint (3 :: go_int) \<and>
   run (NewSet 3 id_vector first_coordinate [])
       [Call_Add 5, Call_AddRange [3, 4], Call_Top, Call_Add 1] =
     Inr ([3], example_set id_vector 3 3
       (Some (Node \<lparr>index = 3, distance = 3, visited = True\<rparr>
         (Some (Node \<lparr>index = 1, distance = 1, visited = False\<rparr> None None))
         (Some (Node \<lparr>index = 4, distance = 4, visited = False\<rparr> None None))))) \<and>
   items (example_set id_vector 3 3
       (Some (Node \<lparr>index = 3, distance = 3, visited = True\<rparr>
         (Some (Node \<lparr>index = 1, distance = 1, visited = False\<rparr> None None))
         (Some (Node \<lparr>index = 4, distance = 4, visited = False\<rparr> None None))))) =
     Some (Node \<lparr>index = 3, distance = 3, visited = True\<rparr>
         (Some (Node \<lparr>index = 1, distance = 1, visited = False\<rparr> None None))
         (Some (Node \<lparr>index = 4, distance = 4, visited = False\<rparr> None None))) \<and>
   Elements (example_set id_vector 3 3
       (Some (Node \<lparr>index = 3, distance = 3, visited = True\<rparr>
         (Some (Node \<lparr>index = 1, distance = 1, visited = False\<rparr> None None))
         (Some (Node \<lparr>index = 4, distance = 4, visited = False\<rparr> None None))))) = Inr [1, 3, 4]"
  using Elements_in_order [OF _ run_example_mixed, of
       "Node \<lparr>index = 3, distance = 3, visited = True\<rparr>
         (Some (Node \<lparr>index = 1, distance = 1, visited = False\<rparr> None None))
         (Some (Node \<lparr>index = 4, distance = 4, visited = False\<rparr> None None))"] run_example_mixed
  by (simp add: example_set_def)

text \<open>
  On a new set, \<^verbatim>\<open>Elements()\<close> calls \<^verbatim>\<open>Node.Elements\<close> on the nil pointer and panics.
\<close>

theorem Elements_of_new_set_panics:
  "Elements (NewSet 3 id_vector first_coordinate []) = Inl NilPointerDereference"
  by (simp add: NewSet_def Elements_def)

subsection \<open>Top and NotVisited on the empty and on the exhausted set\<close>

text \<open>
  C9. A freshly constructed set has \<^verbatim>\<open>items == nil\<close>. \<^verbatim>\<open>NotVisited\<close> and \<^verbatim>\<open>Top\<close> call
  the node method on that nil pointer, and the method body dereferences it: both calls
  panic, they do not return false or a not-found value.
\<close>

theorem Top_of_new_set_panics:
  "Set_NotVisited (NewSet cap vfi dfn c) = Inl NilPointerDereference \<and>
   Set_Top (NewSet cap vfi dfn c) = Inl NilPointerDereference"
  by (simp add: NewSet_def Set_NotVisited_def Set_Top_def)

text \<open>
  C10. On a non-empty set whose entries are all visited, \<^verbatim>\<open>Node.Top\<close> returns
  \<open>(0, False)\<close> and \<^verbatim>\<open>Set.Top\<close> returns the id 0, leaving the set as it is. The value is
  the same as the one \<^verbatim>\<open>Set.Top\<close> returns on any set \<open>s2\<close> where \<^verbatim>\<open>Node.Top\<close> finds an
  unvisited entry with id 0.
\<close>

theorem Top_exhausted_returns_zero:
  assumes "items s = Some t" and "Set_NotVisited s = Inr False"
    and "items s2 = Some t2" and "fst (Node_Top t2) = (0, True)"
  shows "Set_Top s = Inr (0, s) \<and> fst (Node_Top t) = (0, False) \<and>
    map_sum id fst (Set_Top s2) = map_sum id fst (Set_Top s)"
  using assms Node_Top_exhausted [of t]
  by (auto simp: Set_Top_def Set_NotVisited_def case_prod_beta)

theorem Top_exhausted_returns_zero_witness:
  "items (example_set id_vector 2 1
       (Some (Node \<lparr>index = 5, distance = 5, visited = True\<rparr> None None))) =
     Some (Node \<lparr>index = 5, distance = 5, visited = True\<rparr> None None) \<and>
   Set_NotVisited (example_set id_vector 2 1
       (Some (Node \<lparr>index = 5, distance = 5, visited = True\<rparr> None None))) = Inr False \<and>
   items (example_set id_vector 2 1
       (Some (Node \<lparr>index = 0, distance = 0, visited = False\<rparr> None None))) =
     Some (Node \<lparr>index = 0, distance = 0, visited = False\<rparr> None None) \<and>
   fst (Node_Top (Node \<lparr>index = 0, distance = 0, visited = False\<rparr> None None)) = (0, True) \<and>
   Set_Top (example_set id_vector 2 1
       (Some (Node \<lparr>index = 5, distance = 5, visited = True\<rparr> None None))) =
     Inr (0, example_set id_vector 2 1
       (Some (Node \<lparr>index = 5, distance = 5, visited = True\<rparr> None None))) \<and>
   map_sum id fst (Set_Top (example_set id_vector 2 1
       (Some (Node \<lparr>index = 0, distance = 0, visited = False\<rparr> None None)))) =
   map_sum id fst (Set_Top (example_set id_vector 2 1
       (Some (Node \<lparr>index = 5, distance = 5, visited = True\<rparr> None None))))"
  using Top_exhausted_returns_zero
    [of "example_set id_vector 2 1
           (Some (Node \<lparr>index = 5, distance = 5, visited = True\<rparr> None None))"
      "Node \<lparr>index = 5, distance = 5, visited = True\<rparr> None None"
      "example_set id_vector 2 1
           (Some (Node \<lparr>index = 0, distance = 0, visited = False\<rparr> None None))"
      "Node \<lparr>index = 0, distance = 0, visited = False\<rparr> None None"]
  by (simp add: run_defs)

end
